theory Spec2Isabelle
  imports Main "HOL-Library.AList"
begin

section \<open>Values, cells and the remote worksheet\<close>

text \<open>
  The logger of \<^verbatim>\<open>pytorch_lightning/loggers/gdrive.py\<close> writes metrics into a
  spreadsheet worksheet. A logged value is \<^verbatim>\<open>None\<close>, a number, a text or a
  \<^verbatim>\<open>torch.Tensor\<close> holding one number. The code never computes with a number, it
  only carries it, so whole numbers stand for all of them.
\<close>

datatype val = VNone | VNum int | VStr string | VTensor int

datatype error =
  KeyError string | AttributeError string | ValueError string | IndexError | RemoteError

text \<open>A \<^verbatim>\<open>gspread\<close> cell handle: row and column (both counted from 1) and a value.\<close>

record cell =
  crow :: nat
  ccol :: nat
  cvalue :: val

text \<open>
  The worksheet is a collaborator: its methods are calls to the spreadsheet service. The
  model keeps the sheet's contents (\<open>grid\<close>, the latest write of a cell first) and the trace
  of calls made to the service (\<open>calls\<close>, oldest first), so that a statement about which
  remote reads and writes happen is a statement about \<open>calls\<close>.
\<close>

datatype call = RowValues nat | RangeRead nat nat nat nat | UpdateCells "cell list"

record worksheet =
  grid :: "((nat \<times> nat) \<times> val) list"
  calls :: "call list"

definition cell_at :: "((nat \<times> nat) \<times> val) list \<Rightarrow> nat \<Rightarrow> nat \<Rightarrow> val" where
  "cell_at g r c = (case map_of g (r, c) of None \<Rightarrow> VNone | Some v \<Rightarrow> v)"

text \<open>A cell is blank when nothing, \<^verbatim>\<open>None\<close> or the empty text was written to it.\<close>

definition blank :: "val \<Rightarrow> bool" where
  "blank v = (v = VNone \<or> v = VStr [])"

text \<open>
  \<^verbatim>\<open>Worksheet.row_values(row)\<close> returns the row from column 1 up to its last cell
  that is not blank; \<open>row_len\<close> is the column of that cell, 0 for a row without one.
\<close>

definition row_len :: "((nat \<times> nat) \<times> val) list \<Rightarrow> nat \<Rightarrow> nat" where
  "row_len g r =
     fold max (map (snd \<circ> fst)
       (filter (\<lambda>e. fst (fst e) = r \<and> \<not> blank (cell_at g r (snd (fst e)))) g)) 0"

definition ws_row_values :: "nat \<Rightarrow> worksheet \<Rightarrow> val list \<times> worksheet" where
  "ws_row_values r w =
     (map (cell_at (grid w) r) [1..<Suc (row_len (grid w) r)],
      w\<lparr>calls := calls w @ [RowValues r]\<rparr>)"

text \<open>
  \<^verbatim>\<open>Worksheet.range(r1, c1, r2, c2)\<close> asks the service for the rectangle and returns
  one cell handle per position, row by row, each holding the value now on the sheet.
  The reads of the model always answer. For a Table with an empty header the rectangle
  has no column and the model returns no handle; the loop of \<^verbatim>\<open>Table.update\<close> pairs
  handles with header names and stages nothing there, whatever the service returns.
\<close>

definition ws_range :: "nat \<Rightarrow> nat \<Rightarrow> nat \<Rightarrow> nat \<Rightarrow> worksheet \<Rightarrow> cell list \<times> worksheet" where
  "ws_range r1 c1 r2 c2 w =
     (concat (map (\<lambda>r. map (\<lambda>c. \<lparr>crow = r, ccol = c, cvalue = cell_at (grid w) r c\<rparr>)
                              [c1..<Suc c2]) [r1..<Suc r2]),
      w\<lparr>calls := calls w @ [RangeRead r1 c1 r2 c2]\<rparr>)"

definition write_cells :: "cell list \<Rightarrow> ((nat \<times> nat) \<times> val) list \<Rightarrow> ((nat \<times> nat) \<times> val) list" where
  "write_cells cs g = fold (\<lambda>c g'. ((crow c, ccol c), cvalue c) # g') cs g"

text \<open>
  \<^verbatim>\<open>Worksheet.update_cells(cells)\<close> is the one batched write. Whether the service
  accepts it is not decided by the program: the reply is an input of the model. A refused
  call raises; the service may have applied the first \<open>k\<close> cells of the batch before that.
\<close>

datatype reply = Accepted | Refused nat

definition ws_update_cells :: "reply \<Rightarrow> cell list \<Rightarrow> worksheet \<Rightarrow> (error + unit) \<times> worksheet" where
  "ws_update_cells rp cs w =
     (case rp of
        Accepted \<Rightarrow>
          (Inr (), w\<lparr>grid := write_cells cs (grid w), calls := calls w @ [UpdateCells cs]\<rparr>)
      | Refused k \<Rightarrow>
          (Inl RemoteError,
           w\<lparr>grid := write_cells (take k cs) (grid w), calls := calls w @ [UpdateCells cs]\<rparr>))"

section \<open>Table\<close>

text \<open>
  A Python \<^verbatim>\<open>dict\<close> with text keys keeps insertion order: an association list with
  distinct keys. \<open>AList.update\<close> is the assignment \<^verbatim>\<open>d[k] = v\<close> (an existing key keeps
  its place, a new one goes last), \<open>AList.delete\<close> removes a key.
\<close>

type_synonym dict = "(string \<times> val) list"

record table =
  cells_buffer :: "cell list"
  col_offset :: nat
  last_step :: nat
  metrics_header :: "string list"

text \<open>\<^verbatim>\<open>if isinstance(v, torch.Tensor): v = v.item()\<close>\<close>

fun item :: "val \<Rightarrow> val" where
  "item (VTensor n) = VNum n"
| "item v = v"

text \<open>
  The loop of \<^verbatim>\<open>Table.update\<close> over \<^verbatim>\<open>zip(self._metrics_header, cell_list)\<close>.
  \<^verbatim>\<open>row[_metric_name]\<close> raises \<^verbatim>\<open>KeyError\<close> for a missing name; the cells appended
  before that stay in the buffer, which the loop mutates in place.
\<close>

fun stage :: "dict \<Rightarrow> (string \<times> cell) list \<Rightarrow> cell list \<Rightarrow> (error + unit) \<times> cell list" where
  "stage row [] buf = (Inr (), buf)"
| "stage row ((metric_name, c) # rest) buf =
     (case map_of row metric_name of
        None \<Rightarrow> (Inl (KeyError metric_name), buf)
      | Some v \<Rightarrow> stage row rest (buf @ [c\<lparr>cvalue := item v\<rparr>]))"

definition Table_update :: "dict \<Rightarrow> table \<Rightarrow> worksheet \<Rightarrow> (error + unit) \<times> table \<times> worksheet" where
  "Table_update row t w =
     (let (cell_list, w') =
            ws_range (last_step t) (col_offset t)
                     (last_step t) (col_offset t + length (metrics_header t) - 1) w;
          (res, buf) = stage row (zip (metrics_header t) cell_list) (cells_buffer t);
          t' = t\<lparr>cells_buffer := buf\<rparr>
      in case res of
           Inl e \<Rightarrow> (Inl e, t', w')
         | Inr _ \<Rightarrow> (Inr (), t'\<lparr>last_step := last_step t + 1\<rparr>, w'))"

text \<open>
  \<^verbatim>\<open>Table.__init__(ws, header_row, metrics)\<close>. \<^verbatim>\<open>_metrics.pop('step')\<close> raises
  \<^verbatim>\<open>KeyError\<close> when the key is missing. The header is staged by \<^verbatim>\<open>self.update\<close>
  with the dictionary that maps every header name to itself.
\<close>

definition Table_init :: "worksheet \<Rightarrow> nat \<Rightarrow> dict \<Rightarrow> (error + table) \<times> worksheet" where
  "Table_init w header_row metrics =
     (let (header, w1) = ws_row_values header_row w;
          off = (if header = [] then 1 else length header + 2)
      in case map_of metrics ''step'' of
           None \<Rightarrow> (Inl (KeyError ''step''), w1)
         | Some step \<Rightarrow>
             (let hdr = (if step \<noteq> VNone then [''step''] else [])
                          @ map fst (AList.delete ''step'' metrics);
                  t = \<lparr>cells_buffer = [], col_offset = off, last_step = header_row,
                       metrics_header = hdr\<rparr>;
                  (res, t', w2) = Table_update (map (\<lambda>h. (h, VStr h)) hdr) t w1
              in case res of
                   Inl e \<Rightarrow> (Inl e, w2)
                 | Inr _ \<Rightarrow> (Inr t', w2)))"

section \<open>MetricsWorkSheet\<close>

text \<open>
  \<^verbatim>\<open>_schema_to_table\<close> is a \<^verbatim>\<open>dict\<close> from \<^verbatim>\<open>frozenset\<close> to \<^verbatim>\<open>Table\<close>: an
  association list in creation order. The Table objects live in it: a Table is named by
  its key, and a mutation of the object is a write back under that key. The worksheet of
  every Table is the router's own (\<^verbatim>\<open>Table(self._ws, ...)\<close>), so it is kept once.

  The methods carry \<^verbatim>\<open>@rank_zero_only\<close>; the model is the process of rank zero, where
  the decorator runs the method.
\<close>

record router =
  the_ws :: worksheet
  schema_to_table :: "(string set \<times> table) list"
  header_row :: nat

text \<open>
  \<^verbatim>\<open>MetricsWorkSheet.__init__\<close> resolves the header row from the sheet and starts with
  \<^verbatim>\<open>self._schema_to_table = {}\<close>.
\<close>

definition new_router :: "nat \<Rightarrow> worksheet \<Rightarrow> router" where
  "new_router hr w = \<lparr>the_ws = w, schema_to_table = [], header_row = hr\<rparr>"

definition get_table_for_set_of_metrics ::
    "dict \<Rightarrow> router \<Rightarrow> (error + string set \<times> table) \<times> router" where
  "get_table_for_set_of_metrics metrics r =
     (let fs = set (map fst metrics)
      in case map_of (schema_to_table r) fs of
           Some t \<Rightarrow> (Inr (fs, t), r)
         | None \<Rightarrow>
             (case Table_init (the_ws r) (header_row r) metrics of
                (Inl e, w) \<Rightarrow> (Inl e, r\<lparr>the_ws := w\<rparr>)
              | (Inr t, w) \<Rightarrow>
                  (Inr (fs, t),
                   r\<lparr>the_ws := w, schema_to_table := schema_to_table r @ [(fs, t)]\<rparr>)))"

definition step_val :: "int option \<Rightarrow> val" where
  "step_val step = (case step of None \<Rightarrow> VNone | Some n \<Rightarrow> VNum n)"

definition full_metrics :: "dict \<Rightarrow> int option \<Rightarrow> dict" where
  "full_metrics metrics step = AList.update ''step'' (step_val step) metrics"

definition log_metrics :: "dict \<Rightarrow> int option \<Rightarrow> router \<Rightarrow> (error + unit) \<times> router" where
  "log_metrics metrics step r =
     (case get_table_for_set_of_metrics (full_metrics metrics step) r of
        (Inl e, r1) \<Rightarrow> (Inl e, r1)
      | (Inr (fs, t), r1) \<Rightarrow>
          (let (res, t', w) = Table_update (full_metrics metrics step) t (the_ws r1)
           in (res, r1\<lparr>the_ws := w,
                       schema_to_table := AList.update fs t' (schema_to_table r1)\<rparr>)))"

definition aggregated_cell_buffers :: "router \<Rightarrow> cell list" where
  "aggregated_cell_buffers r = concat (map (\<lambda>e. cells_buffer (snd e)) (schema_to_table r))"

definition save :: "reply \<Rightarrow> router \<Rightarrow> (error + unit) \<times> router" where
  "save rp r =
     (if aggregated_cell_buffers r = [] then (Inr (), r)
      else case ws_update_cells rp (aggregated_cell_buffers r) (the_ws r) of
             (Inl e, w) \<Rightarrow> (Inl e, r\<lparr>the_ws := w\<rparr>)
           | (Inr _, w) \<Rightarrow>
               (Inr (),
                r\<lparr>the_ws := w,
                  schema_to_table :=
                    map (\<lambda>e. (fst e, (snd e)\<lparr>cells_buffer := []\<rparr>)) (schema_to_table r)\<rparr>))"

text \<open>
  A caller's use of one router: a sequence of calls, each of which returns or raises. An
  exception reaches the caller, who may go on calling, so a run does not stop at one.
\<close>

datatype op = LogMetrics dict "int option" | Save reply

fun step_op :: "op \<Rightarrow> router \<Rightarrow> (error + unit) \<times> router" where
  "step_op (LogMetrics metrics step) r = log_metrics metrics step r"
| "step_op (Save rp) r = save rp r"

fun run :: "op list \<Rightarrow> router \<Rightarrow> router" where
  "run [] r = r"
| "run (x # xs) r = run xs (snd (step_op x r))"

section \<open>GDriveLogger: the version of a run\<close>

text \<open>
  The file-storage service is a collaborator: a drive is the list of its file records,
  and \<^verbatim>\<open>ListFile\<close> with the query \<^verbatim>\<open>'<id>' in parents and trashed=false\<close> returns
  the records that have the parent and are not in the bin.
\<close>

record gfile =
  file_id :: string
  title :: string
  mimeType :: string
  parents :: "string list"
  trashed :: bool

definition ListFile_in_parent :: "string \<Rightarrow> gfile list \<Rightarrow> gfile list" where
  "ListFile_in_parent parent_id drive =
     filter (\<lambda>f. parent_id \<in> set (parents f) \<and> \<not> trashed f) drive"

definition is_dir :: "gfile \<Rightarrow> bool" where
  "is_dir f = (mimeType f = ''application/vnd.google-apps.folder'')"

text \<open>\<^verbatim>\<open>title.split("_")\<close>: the pieces between the separators, never an empty list.\<close>

fun split_on :: "char \<Rightarrow> string \<Rightarrow> string list" where
  "split_on sep [] = [[]]"
| "split_on sep (c # cs) =
     (if c = sep then [] # split_on sep cs
      else (case split_on sep cs of
              [] \<Rightarrow> [[c]]
            | p # ps \<Rightarrow> (c # p) # ps))"

text \<open>
  \<^verbatim>\<open>int(text)\<close> on ASCII text: blanks around the number are dropped, then an optional
  sign and at least one decimal digit must remain; anything else raises
  \<^verbatim>\<open>ValueError\<close>. (The text comes from a split at underscores and holds none.)
\<close>

definition is_space :: "char \<Rightarrow> bool" where
  "is_space c = (c \<in> set [CHR '' '', CHR 0x09, CHR 0x0A, CHR 0x0B, CHR 0x0C, CHR 0x0D])"

definition is_digit :: "char \<Rightarrow> bool" where
  "is_digit c = (48 \<le> (of_char c :: nat) \<and> (of_char c :: nat) \<le> 57)"

definition py_int :: "string \<Rightarrow> error + int" where
  "py_int text =
     (let t = rev (dropWhile is_space (rev (dropWhile is_space text)));
          (neg, ds) = (case t of
                         [] \<Rightarrow> (False, t)
                       | c # r \<Rightarrow> if c = CHR ''-'' then (True, r)
                                  else if c = CHR ''+'' then (False, r) else (False, t))
      in if ds \<noteq> [] \<and> list_all is_digit ds
         then Inr ((if neg then - 1 else 1)
                     * int (foldl (\<lambda>a c. 10 * a + (of_char c - 48)) 0 ds))
         else Inl (ValueError text))"

text \<open>\<^verbatim>\<open>str(n)\<close> for the f-string \<^verbatim>\<open>f"version_{self._version}"\<close>.\<close>

fun str_nat :: "nat \<Rightarrow> string" where
  "str_nat n =
     (if n < 10 then [char_of (48 + n)]
      else str_nat (n div 10) @ [char_of (48 + n mod 10)])"

declare str_nat.simps [simp del]

definition str_int :: "int \<Rightarrow> string" where
  "str_int i = (if i < 0 then CHR ''-'' # str_nat (nat (- i)) else str_nat (nat i))"

text \<open>
  The loop of \<^verbatim>\<open>_get_next_version\<close>: every folder whose title starts with
  \<^verbatim>\<open>version_\<close> contributes \<^verbatim>\<open>int(title.split("_")[1])\<close>; the first title whose
  second piece is no number raises.
\<close>

fun existing_versions :: "gfile list \<Rightarrow> error + int list" where
  "existing_versions [] = Inr []"
| "existing_versions (d # ds) =
     (if is_dir d \<and> take 8 (title d) = ''version_'' then
        (case split_on CHR ''_'' (title d) of
           p0 # p1 # ps \<Rightarrow>
             (case py_int p1 of
                Inl e \<Rightarrow> Inl e
              | Inr v \<Rightarrow> (case existing_versions ds of
                             Inl e \<Rightarrow> Inl e
                           | Inr vs \<Rightarrow> Inr (v # vs)))
         | _ \<Rightarrow> Inl IndexError)
      else existing_versions ds)"

text \<open>
  \<^verbatim>\<open>_get_next_version\<close> reads \<^verbatim>\<open>self.root_folder_id\<close> to build the query. An
  attribute that no statement has assigned yet is \<open>None\<close> here, and reading it raises
  \<^verbatim>\<open>AttributeError\<close>.
\<close>

definition get_next_version :: "string option \<Rightarrow> gfile list \<Rightarrow> error + int" where
  "get_next_version root_folder_id drive =
     (case root_folder_id of
        None \<Rightarrow> Inl (AttributeError ''root_folder_id'')
      | Some root \<Rightarrow>
          (case existing_versions (ListFile_in_parent root drive) of
             Inl e \<Rightarrow> Inl e
           | Inr [] \<Rightarrow> Inr 0
           | Inr (v # vs) \<Rightarrow> Inr (fold max vs v + 1)))"

text \<open>
  Lines 106 to 114 of \<^verbatim>\<open>GDriveLogger.__init__\<close>, for a \<^verbatim>\<open>version\<close> argument that
  is \<^verbatim>\<open>None\<close>, a number or a text. \<open>root_folder_id\<close> is the attribute as it stands when
  line 106 runs; \<^verbatim>\<open>__init__\<close> assigns it first in line 115. The result is the attribute
  \<^verbatim>\<open>_version\<close> after line 114, which the property \<^verbatim>\<open>version\<close> returns, and the name
  of the run's folder. The lines after 114 find or create folders and the spreadsheet
  and do not assign \<^verbatim>\<open>_version\<close>.
\<close>

datatype version = VerInt int | VerStr string

definition GDriveLogger_init_version ::
    "string option \<Rightarrow> version option \<Rightarrow> gfile list \<Rightarrow> error + version option \<times> string" where
  "GDriveLogger_init_version root_folder_id version drive =
     (case (case version of
              None \<Rightarrow> (case get_next_version root_folder_id drive of
                          Inl e \<Rightarrow> Inl e
                        | Inr n \<Rightarrow> Inr (VerInt n))
            | Some v \<Rightarrow> Inr v) of
        Inl e \<Rightarrow> Inl e
      | Inr resolved \<Rightarrow>
          (let version_folder = (case resolved of
                                   VerStr text \<Rightarrow> text
                                 | VerInt n \<Rightarrow> ''version_'' @ str_int n)
           in Inr (version, version_folder)))"

section \<open>Vocabulary of the statements\<close>

text \<open>
  The cells one row of a Table occupies: name \<open>i\<close> of the header goes to column
  \<open>off + i\<close> of row \<open>r\<close>, with the value the mapping gives it, a tensor unwrapped.
\<close>

definition row_cells :: "dict \<Rightarrow> nat \<Rightarrow> nat \<Rightarrow> string list \<Rightarrow> cell list" where
  "row_cells row r off names =
     map (\<lambda>i. \<lparr>crow = r, ccol = off + i, cvalue = item (the (map_of row (names ! i)))\<rparr>)
         [0..<length names]"

text \<open>
  The header of a Table made from a mapping whose \<^verbatim>\<open>step\<close> entry is \<open>step\<close>:
  \<^verbatim>\<open>step\<close> first when a step was given, then the other keys in the mapping's order.
\<close>

definition header_names :: "val \<Rightarrow> dict \<Rightarrow> string list" where
  "header_names step metrics =
     (if step \<noteq> VNone then [''step''] else [])
       @ filter (\<lambda>k. k \<noteq> ''step'') (map fst metrics)"

text \<open>The schema of a call: \<^verbatim>\<open>frozenset(full_metrics.keys())\<close>.\<close>

definition schema_of :: "dict \<Rightarrow> int option \<Rightarrow> string set" where
  "schema_of metrics step = set (map fst (full_metrics metrics step))"

text \<open>
  The Table that \<^verbatim>\<open>Table.__init__\<close> builds for a call on router \<open>r\<close>, with its
  header staged, and the effect of staging one row on a Table.
\<close>

definition new_table :: "router \<Rightarrow> dict \<Rightarrow> int option \<Rightarrow> table" where
  "new_table r metrics step =
     (let header = fst (ws_row_values (header_row r) (the_ws r));
          off = (if header = [] then 1 else length header + 2);
          names = header_names (step_val step) (full_metrics metrics step)
      in \<lparr>cells_buffer =
             map (\<lambda>i. \<lparr>crow = header_row r, ccol = off + i, cvalue = VStr (names ! i)\<rparr>)
                 [0..<length names],
           col_offset = off, last_step = header_row r + 1, metrics_header = names\<rparr>)"

definition add_row :: "dict \<Rightarrow> table \<Rightarrow> table" where
  "add_row row t =
     t\<lparr>cells_buffer := cells_buffer t @ row_cells row (last_step t) (col_offset t) (metrics_header t),
       last_step := last_step t + 1\<rparr>"

text \<open>Two states of a Table with the same column block: same offset, same header.\<close>

definition same_block :: "table \<Rightarrow> table \<Rightarrow> bool" where
  "same_block t t' = (col_offset t' = col_offset t \<and> metrics_header t' = metrics_header t)"

text \<open>How many calls of \<^verbatim>\<open>log_metrics\<close> in a sequence have the schema \<open>fs\<close>.\<close>

definition calls_with :: "string set \<Rightarrow> op list \<Rightarrow> nat" where
  "calls_with fs ops =
     length (filter (\<lambda>x. case x of LogMetrics m s \<Rightarrow> schema_of m s = fs | Save rp \<Rightarrow> False) ops)"

text \<open>
  The invariant behind the row numbers: after the calls \<open>ops\<close>, a schema has a Table
  exactly when it has been logged, the Table's header lies within the schema, and its
  row counter is the header row plus one plus the number of calls with that schema.
\<close>

definition counted :: "nat \<Rightarrow> op list \<Rightarrow> router \<Rightarrow> bool" where
  "counted hr ops r =
     (header_row r = hr \<and>
      (\<forall>fs. case map_of (schema_to_table r) fs of
              None \<Rightarrow> calls_with fs ops = 0
            | Some t \<Rightarrow> set (metrics_header t) \<subseteq> fs \<and> 0 < calls_with fs ops \<and>
                        last_step t = hr + 1 + calls_with fs ops))"

section \<open>Table.update\<close>

lemma ws_range_row:
  "ws_range r c1 r c2 w =
     (map (\<lambda>c. \<lparr>crow = r, ccol = c, cvalue = cell_at (grid w) r c\<rparr>) [c1..<Suc c2],
      w\<lparr>calls := calls w @ [RangeRead r c1 r c2]\<rparr>)"
  by (simp add: ws_range_def)

lemma stage_present:
  "fst ` set zs \<subseteq> fst ` set row \<Longrightarrow>
   stage row zs buf =
     (Inr (), buf @ map (\<lambda>(name, c). c\<lparr>cvalue := item (the (map_of row name))\<rparr>) zs)"
proof (induction zs arbitrary: buf)
  case Nil
  then show ?case by simp
next
  case (Cons z zs)
  obtain name c where z: "z = (name, c)" by (cases z)
  from Cons.prems z have "name \<in> fst ` set row" by simp
  then obtain v where v: "map_of row name = Some v"
    by (metis domD dom_map_of_conv_image_fst)
  from Cons.prems have "fst ` set zs \<subseteq> fst ` set row" by simp
  from Cons.IH[OF this] show ?case using z v by simp
qed

lemma stage_missing:
  "fst ` set pre \<subseteq> fst ` set row \<Longrightarrow> name \<notin> fst ` set row \<Longrightarrow>
   stage row (pre @ (name, c) # post) buf =
     (Inl (KeyError name),
      buf @ map (\<lambda>(name, c). c\<lparr>cvalue := item (the (map_of row name))\<rparr>) pre)"
proof (induction pre arbitrary: buf)
  case Nil
  then have "map_of row name = None"
    by (metis domIff dom_map_of_conv_image_fst)
  then show ?case by simp
next
  case (Cons z zs)
  obtain n' c' where z: "z = (n', c')" by (cases z)
  from Cons.prems z have "n' \<in> fst ` set row" by simp
  then obtain v where v: "map_of row n' = Some v"
    by (metis domD dom_map_of_conv_image_fst)
  from Cons.prems have "fst ` set zs \<subseteq> fst ` set row" by simp
  from Cons.IH[OF this Cons.prems(2)] show ?case using z v by simp
qed

lemma zip_range_cells:
  "zip hs (map f [c..<Suc (c + length hs - Suc 0)]) = zip hs (map f [c..<c + length hs])"
  by (cases "length hs") auto

lemma zip_map_cells:
  "map (\<lambda>(name, c). c\<lparr>cvalue := f name\<rparr>)
       (zip hs (map (\<lambda>c. \<lparr>crow = r, ccol = c, cvalue = g c\<rparr>) cs))
   = map (\<lambda>(name, c). \<lparr>crow = r, ccol = c, cvalue = f name\<rparr>) (zip hs cs)"
  by (induction hs arbitrary: cs) (auto simp: zip_Cons1 split: list.splits)

lemma zip_cells_row_cells:
  "map (\<lambda>(name, c). \<lparr>crow = r, ccol = c, cvalue = item (the (map_of row name))\<rparr>)
       (zip hs [off..<off + length hs]) = row_cells row r off hs"
  by (rule nth_equalityI) (simp_all add: row_cells_def)

lemma zip_keys_subset:
  assumes "set hs \<subseteq> K"
  shows "fst ` set (zip hs cs) \<subseteq> K"
proof
  fix x assume "x \<in> fst ` set (zip hs cs)"
  then obtain b where "(x, b) \<in> set (zip hs cs)" by auto
  then have "x \<in> set hs" by (rule set_zip_leftD)
  with assms show "x \<in> K" by blast
qed

lemma Table_update_ok:
  assumes "set (metrics_header t) \<subseteq> fst ` set row"
  shows "Table_update row t w =
     (Inr (),
      t\<lparr>cells_buffer :=
          cells_buffer t @ row_cells row (last_step t) (col_offset t) (metrics_header t),
        last_step := last_step t + 1\<rparr>,
      w\<lparr>calls := calls w @ [RangeRead (last_step t) (col_offset t) (last_step t)
                              (col_offset t + length (metrics_header t) - 1)]\<rparr>)"
proof -
  let ?cl = "map (\<lambda>c. \<lparr>crow = last_step t, ccol = c,
                         cvalue = cell_at (grid w) (last_step t) c\<rparr>)
                 [col_offset t..<col_offset t + length (metrics_header t)]"
  have "fst ` set (zip (metrics_header t) ?cl) \<subseteq> fst ` set row"
    using assms by (rule zip_keys_subset)
  from stage_present[OF this]
  show ?thesis
    by (simp add: Table_update_def ws_range_row zip_range_cells zip_map_cells
          zip_cells_row_cells del: upt_Suc)
qed

lemma zip_split:
  "zip (pre @ name # post) (map f [c..<c + length (pre @ name # post)]) =
   zip pre (map f [c..<c + length pre]) @ (name, f (c + length pre)) #
   zip post (map f [Suc (c + length pre)..<c + length (pre @ name # post)])"
proof -
  have A: "[c..<c + length pre + Suc (length post)] =
           [c..<c + length pre] @ [c + length pre..<c + length pre + Suc (length post)]"
    by (rule upt_add_eq_append) simp
  have B: "[c + length pre..<c + length pre + Suc (length post)] =
           (c + length pre) # [Suc (c + length pre)..<c + length pre + Suc (length post)]"
    by (rule upt_conv_Cons) simp
  have C: "c + length (pre @ name # post) = c + length pre + Suc (length post)" by simp
  show ?thesis unfolding C A B by (simp del: upt_Suc)
qed

lemma Table_update_fail:
  assumes "metrics_header t = pre @ name # post"
    and "set pre \<subseteq> fst ` set row" and "name \<notin> fst ` set row"
  shows "Table_update row t w =
     (Inl (KeyError name),
      t\<lparr>cells_buffer := cells_buffer t @ row_cells row (last_step t) (col_offset t) pre\<rparr>,
      w\<lparr>calls := calls w @ [RangeRead (last_step t) (col_offset t) (last_step t)
                              (col_offset t + length (metrics_header t) - 1)]\<rparr>)"
proof -
  let ?mk = "\<lambda>c. \<lparr>crow = last_step t, ccol = c, cvalue = cell_at (grid w) (last_step t) c\<rparr>"
  let ?o = "col_offset t"
  let ?cl = "map ?mk [?o..<?o + length (metrics_header t)]"
  have z: "zip (metrics_header t) ?cl =
        zip pre (map ?mk [?o..<?o + length pre]) @ (name, ?mk (?o + length pre)) #
        zip post (map ?mk [Suc (?o + length pre)..<?o + length (metrics_header t)])"
    unfolding assms(1) by (rule zip_split)
  have sub: "fst ` set (zip pre (map ?mk [?o..<?o + length pre])) \<subseteq> fst ` set row"
    using assms(2) by (rule zip_keys_subset)
  have st: "stage row (zip (metrics_header t) ?cl) (cells_buffer t) =
      (Inl (KeyError name), cells_buffer t @ row_cells row (last_step t) ?o pre)"
    unfolding z stage_missing[OF sub assms(3)]
    by (simp add: zip_map_cells zip_cells_row_cells)
  show ?thesis
    by (simp add: Table_update_def ws_range_row zip_range_cells st del: upt_Suc)
qed

text \<open>
  Claim C2, as amended. For every Table and every mapping that has a value for each header
  name, \<^verbatim>\<open>Table.update\<close> returns; it makes exactly one call to the service, the range
  read that fetches the cell handles of the row, and no write: the sheet's contents are
  unchanged. Its other effects are in memory: the row's cells are appended to the pending
  buffer and the row counter goes up by one.
\<close>

theorem Table_update_effects:
  assumes "set (metrics_header t) \<subseteq> fst ` set row"
  shows "Table_update row t w =
     (Inr (),
      t\<lparr>cells_buffer :=
          cells_buffer t @ row_cells row (last_step t) (col_offset t) (metrics_header t),
        last_step := last_step t + 1\<rparr>,
      w\<lparr>calls := calls w @ [RangeRead (last_step t) (col_offset t) (last_step t)
                              (col_offset t + length (metrics_header t) - 1)]\<rparr>)"
  using assms by (rule Table_update_ok)

theorem Table_update_effects_witness:
  "set (metrics_header \<lparr>cells_buffer = [], col_offset = 1, last_step = 4,
                         metrics_header = [''step'', ''loss'']\<rparr>)
     \<subseteq> fst ` set [(''loss'', VTensor 20), (''step'', VNum 1)] \<and>
   Table_update [(''loss'', VTensor 20), (''step'', VNum 1)]
     \<lparr>cells_buffer = [], col_offset = 1, last_step = 4, metrics_header = [''step'', ''loss'']\<rparr>
     \<lparr>grid = [((4, 1), VNum 7)], calls = []\<rparr> =
   (Inr (),
    \<lparr>cells_buffer = [\<lparr>crow = 4, ccol = 1, cvalue = VNum 1\<rparr>,
                      \<lparr>crow = 4, ccol = 2, cvalue = VNum 20\<rparr>],
       col_offset = 1, last_step = 5, metrics_header = [''step'', ''loss'']\<rparr>,
    \<lparr>grid = [((4, 1), VNum 7)], calls = [RangeRead 4 1 4 2]\<rparr>)"
  using Table_update_effects
    [of "\<lparr>cells_buffer = [], col_offset = 1, last_step = 4,
          metrics_header = [''step'', ''loss'']\<rparr>"
        "[(''loss'', VTensor 20), (''step'', VNum 1)]"
        "\<lparr>grid = [((4, 1), VNum 7)], calls = []\<rparr>"]
  by (simp add: row_cells_def upt_rec)

text \<open>
  Claim C2 as stated fails: the call reads from the remote worksheet. On a Table with the
  header \<^verbatim>\<open>step, loss\<close> at column 1 and row 4, one \<^verbatim>\<open>update\<close> leaves the range
  read of \<^verbatim>\<open>A4:B4\<close> in the trace of service calls.
\<close>

theorem Table_update_reads_remote:
  "calls (snd (snd (Table_update [(''loss'', VTensor 20), (''step'', VNum 1)]
     \<lparr>cells_buffer = [], col_offset = 1, last_step = 4, metrics_header = [''step'', ''loss'']\<rparr>
     \<lparr>grid = [], calls = []\<rparr>))) = [RangeRead 4 1 4 2]"
  by (simp add: Table_update_def ws_range_def cell_at_def upt_rec)

text \<open>
  Claim C9. When the mapping lacks a header name that is not the first one (and has all the
  names before it), \<^verbatim>\<open>Table.update\<close> raises \<^verbatim>\<open>KeyError\<close> for that name and leaves
  the Table partly changed: the cells of the names before the missing one are already in
  the pending buffer, at least one of them, and the row counter is not advanced.
\<close>

theorem Table_update_not_atomic:
  assumes "metrics_header t = pre @ name # post" and "pre \<noteq> []"
    and "set pre \<subseteq> fst ` set row" and "name \<notin> fst ` set row"
  shows "Table_update row t w =
     (Inl (KeyError name),
      t\<lparr>cells_buffer := cells_buffer t @ row_cells row (last_step t) (col_offset t) pre\<rparr>,
      w\<lparr>calls := calls w @ [RangeRead (last_step t) (col_offset t) (last_step t)
                              (col_offset t + length (metrics_header t) - 1)]\<rparr>)
    \<and> length (row_cells row (last_step t) (col_offset t) pre) = length pre
    \<and> 0 < length pre
    \<and> last_step (fst (snd (Table_update row t w))) = last_step t"
  using assms Table_update_fail[OF assms(1,3,4), of w] by (simp add: row_cells_def)

theorem Table_update_not_atomic_witness:
  "metrics_header \<lparr>cells_buffer = [], col_offset = 5, last_step = 4,
                   metrics_header = [''step'', ''loss'', ''acc'']\<rparr> = [''step''] @ ''loss'' # [''acc'']
   \<and> [''step''] \<noteq> []
   \<and> set [''step''] \<subseteq> fst ` set [(''acc'', VNum 3), (''step'', VNum 1)]
   \<and> ''loss'' \<notin> fst ` set [(''acc'', VNum 3), (''step'', VNum 1)]
   \<and> fst (Table_update [(''acc'', VNum 3), (''step'', VNum 1)]
            \<lparr>cells_buffer = [], col_offset = 5, last_step = 4,
               metrics_header = [''step'', ''loss'', ''acc'']\<rparr>
            \<lparr>grid = [], calls = []\<rparr>) = Inl (KeyError ''loss'')
   \<and> fst (snd (Table_update [(''acc'', VNum 3), (''step'', VNum 1)]
            \<lparr>cells_buffer = [], col_offset = 5, last_step = 4,
               metrics_header = [''step'', ''loss'', ''acc'']\<rparr>
            \<lparr>grid = [], calls = []\<rparr>)) =
       \<lparr>cells_buffer = [\<lparr>crow = 4, ccol = 5, cvalue = VNum 1\<rparr>], col_offset = 5, last_step = 4,
          metrics_header = [''step'', ''loss'', ''acc'']\<rparr>"
  using Table_update_not_atomic
    [of "\<lparr>cells_buffer = [], col_offset = 5, last_step = 4,
          metrics_header = [''step'', ''loss'', ''acc'']\<rparr>"
        "[''step'']" "''loss''" "[''acc'']"
        "[(''acc'', VNum 3), (''step'', VNum 1)]"
        "\<lparr>grid = [], calls = []\<rparr>"]
  by (simp add: row_cells_def)

section \<open>Table construction\<close>

lemma keys_delete: "map fst (AList.delete k al) = filter (\<lambda>k'. k' \<noteq> k) (map fst al)"
  by (induction al) (auto simp: AList.delete_eq)

lemma map_of_self: "h \<in> set hs \<Longrightarrow> map_of (map (\<lambda>h. (h, VStr h)) hs) h = Some (VStr h)"
  by (induction hs) auto

lemma row_cells_self:
  "row_cells (map (\<lambda>h. (h, VStr h)) hs) r off hs =
   map (\<lambda>i. \<lparr>crow = r, ccol = off + i, cvalue = VStr (hs ! i)\<rparr>) [0..<length hs]"
  by (simp add: row_cells_def map_of_self)

lemma Table_init_ok:
  assumes "map_of metrics ''step'' = Some step"
  shows "Table_init w hr metrics =
    (let header = fst (ws_row_values hr w);
         off = (if header = [] then 1 else length header + 2);
         names = header_names step metrics
     in (Inr \<lparr>cells_buffer =
                map (\<lambda>i. \<lparr>crow = hr, ccol = off + i, cvalue = VStr (names ! i)\<rparr>)
                    [0..<length names],
              col_offset = off, last_step = hr + 1, metrics_header = names\<rparr>,
         w\<lparr>calls := calls w @ [RowValues hr, RangeRead hr off hr (off + length names - 1)]\<rparr>))"
proof -
  define names where "names = header_names step metrics"
  define header where "header = fst (ws_row_values hr w)"
  define off where "off = (if header = [] then 1 else length header + 2)"
  have hdr: "(if step \<noteq> VNone then [''step''] else [])
               @ map fst (AList.delete ''step'' metrics) = names"
    by (simp add: names_def header_names_def keys_delete)
  have rv: "ws_row_values hr w = (header, w\<lparr>calls := calls w @ [RowValues hr]\<rparr>)"
    by (simp add: ws_row_values_def header_def)
  let ?t = "\<lparr>cells_buffer = [], col_offset = (if header = [] then 1 else length header + 2),
             last_step = hr, metrics_header = names\<rparr>"
  have sub: "set (metrics_header ?t) \<subseteq> fst ` set (map (\<lambda>h. (h, VStr h)) names)"
    by (auto simp: image_iff)
  have up: "Table_update (map (\<lambda>h. (h, VStr h)) names) ?t w' =
      (Inr (),
       \<lparr>cells_buffer = map (\<lambda>i. \<lparr>crow = hr, ccol = off + i, cvalue = VStr (names ! i)\<rparr>)
                            [0..<length names],
          col_offset = off, last_step = hr + 1, metrics_header = names\<rparr>,
       w'\<lparr>calls := calls w' @ [RangeRead hr off hr (off + length names - 1)]\<rparr>)" for w'
    unfolding Table_update_ok[OF sub]
    by (simp add: row_cells_self off_def)
  have "Table_init w hr metrics =
     (Inr \<lparr>cells_buffer = map (\<lambda>i. \<lparr>crow = hr, ccol = off + i, cvalue = VStr (names ! i)\<rparr>)
                               [0..<length names],
             col_offset = off, last_step = hr + 1, metrics_header = names\<rparr>,
      w\<lparr>calls := calls w @ [RowValues hr, RangeRead hr off hr (off + length names - 1)]\<rparr>)"
    unfolding Table_init_def rv
    by (simp only: Let_def split_conv assms option.case hdr up sum.case) simp
  then show ?thesis
    by (simp only: Let_def names_def header_def off_def)
qed



section \<open>Save\<close>

lemma agg_cleared:
  "concat (map (\<lambda>e. cells_buffer (snd e))
               (map (\<lambda>e. (fst e, (snd e)\<lparr>cells_buffer := []\<rparr>)) xs)) = []"
  by (induction xs) auto

lemma save_empty: "aggregated_cell_buffers r = [] \<Longrightarrow> save rp r = (Inr (), r)"
  by (simp add: save_def)

lemma save_accepted:
  "aggregated_cell_buffers r \<noteq> [] \<Longrightarrow>
   save Accepted r =
     (Inr (),
      r\<lparr>the_ws := (the_ws r)\<lparr>grid := write_cells (aggregated_cell_buffers r) (grid (the_ws r)),
                              calls := calls (the_ws r) @ [UpdateCells (aggregated_cell_buffers r)]\<rparr>,
        schema_to_table :=
          map (\<lambda>e. (fst e, (snd e)\<lparr>cells_buffer := []\<rparr>)) (schema_to_table r)\<rparr>)"
  by (simp add: save_def ws_update_cells_def)

lemma save_refused:
  "aggregated_cell_buffers r \<noteq> [] \<Longrightarrow>
   save (Refused k) r =
     (Inl RemoteError,
      r\<lparr>the_ws := (the_ws r)\<lparr>grid := write_cells (take k (aggregated_cell_buffers r))
                                               (grid (the_ws r)),
                              calls := calls (the_ws r) @ [UpdateCells (aggregated_cell_buffers r)]\<rparr>\<rparr>)"
  by (simp add: save_def ws_update_cells_def)

lemma agg_after_accepted: "aggregated_cell_buffers (snd (save Accepted r)) = []"
  by (cases "aggregated_cell_buffers r = []")
     (simp_all add: save_empty save_accepted aggregated_cell_buffers_def agg_cleared)

text \<open>
  Claim C5. When the batched write issued by \<^verbatim>\<open>save\<close> raises, however many cells the
  service applied before that, every Table is exactly as before the call, its pending
  buffer included: the buffers are cleared only after the write has returned. The call
  raises the service's error, and the next \<^verbatim>\<open>save\<close> sends the same cells again.
\<close>

theorem save_refused_keeps_buffers:
  "schema_to_table (snd (save (Refused k) r)) = schema_to_table r \<and>
   (aggregated_cell_buffers r \<noteq> [] \<longrightarrow>
      fst (save (Refused k) r) = Inl RemoteError \<and>
      calls (the_ws (snd (save (Refused k) r))) =
        calls (the_ws r) @ [UpdateCells (aggregated_cell_buffers r)] \<and>
      calls (the_ws (snd (save rp (snd (save (Refused k) r))))) =
        calls (the_ws r) @ [UpdateCells (aggregated_cell_buffers r),
                            UpdateCells (aggregated_cell_buffers r)])"
proof (cases "aggregated_cell_buffers r = []")
  case True
  then show ?thesis by (simp add: save_empty)
next
  case False
  let ?r1 = "snd (save (Refused k) r)"
  have r1: "schema_to_table ?r1 = schema_to_table r"
    using False by (simp add: save_refused)
  then have agg: "aggregated_cell_buffers ?r1 = aggregated_cell_buffers r"
    by (simp add: aggregated_cell_buffers_def)
  have c1: "calls (the_ws ?r1) = calls (the_ws r) @ [UpdateCells (aggregated_cell_buffers r)]"
    using False by (simp add: save_refused)
  have "calls (the_ws (snd (save rp ?r1))) =
        calls (the_ws ?r1) @ [UpdateCells (aggregated_cell_buffers ?r1)]"
    using False agg by (cases rp) (simp_all add: save_def ws_update_cells_def)
  with r1 c1 agg False show ?thesis by (simp add: save_refused)
qed

theorem save_refused_keeps_buffers_witness:
  "aggregated_cell_buffers
     \<lparr>the_ws = \<lparr>grid = [], calls = []\<rparr>,
      schema_to_table =
        [({''loss'', ''step''},
          \<lparr>cells_buffer = [\<lparr>crow = 3, ccol = 1, cvalue = VStr ''step''\<rparr>,
                            \<lparr>crow = 3, ccol = 2, cvalue = VStr ''loss''\<rparr>],
             col_offset = 1, last_step = 4, metrics_header = [''step'', ''loss'']\<rparr>)],
      header_row = 3\<rparr> \<noteq> [] \<and>
   save (Refused 1)
     \<lparr>the_ws = \<lparr>grid = [], calls = []\<rparr>,
      schema_to_table =
        [({''loss'', ''step''},
          \<lparr>cells_buffer = [\<lparr>crow = 3, ccol = 1, cvalue = VStr ''step''\<rparr>,
                            \<lparr>crow = 3, ccol = 2, cvalue = VStr ''loss''\<rparr>],
             col_offset = 1, last_step = 4, metrics_header = [''step'', ''loss'']\<rparr>)],
      header_row = 3\<rparr> =
   (Inl RemoteError,
    \<lparr>the_ws = \<lparr>grid = [((3, 1), VStr ''step'')],
                calls = [UpdateCells [\<lparr>crow = 3, ccol = 1, cvalue = VStr ''step''\<rparr>,
                                      \<lparr>crow = 3, ccol = 2, cvalue = VStr ''loss''\<rparr>]]\<rparr>,
      schema_to_table =
        [({''loss'', ''step''},
          \<lparr>cells_buffer = [\<lparr>crow = 3, ccol = 1, cvalue = VStr ''step''\<rparr>,
                            \<lparr>crow = 3, ccol = 2, cvalue = VStr ''loss''\<rparr>],
             col_offset = 1, last_step = 4, metrics_header = [''step'', ''loss'']\<rparr>)],
      header_row = 3\<rparr>)"
  using save_refused_keeps_buffers
    [of 1 "\<lparr>the_ws = \<lparr>grid = [], calls = []\<rparr>,
      schema_to_table =
        [({''loss'', ''step''},
          \<lparr>cells_buffer = [\<lparr>crow = 3, ccol = 1, cvalue = VStr ''step''\<rparr>,
                            \<lparr>crow = 3, ccol = 2, cvalue = VStr ''loss''\<rparr>],
             col_offset = 1, last_step = 4, metrics_header = [''step'', ''loss'']\<rparr>)],
      header_row = 3\<rparr>" Accepted]
  by (simp add: save_def aggregated_cell_buffers_def ws_update_cells_def write_cells_def)

text \<open>
  Claim C6. A \<^verbatim>\<open>save\<close> with every buffer empty changes nothing, the trace of service
  calls included: it writes nothing. A \<^verbatim>\<open>save\<close> with cells pending, accepted by the
  service, issues exactly one batched write, of all pending cells; a second \<^verbatim>\<open>save\<close>
  right after it changes nothing, whatever the service would reply.
\<close>

theorem save_twice:
  "(aggregated_cell_buffers r = [] \<longrightarrow> save rp r = (Inr (), r)) \<and>
   (aggregated_cell_buffers r \<noteq> [] \<longrightarrow>
      fst (save Accepted r) = Inr () \<and>
      calls (the_ws (snd (save Accepted r))) =
        calls (the_ws r) @ [UpdateCells (aggregated_cell_buffers r)] \<and>
      save rp (snd (save Accepted r)) = (Inr (), snd (save Accepted r)))"
  using agg_after_accepted[of r]
  by (auto simp: save_empty save_accepted)

theorem save_twice_witness:
  "aggregated_cell_buffers (new_router 3 \<lparr>grid = [], calls = []\<rparr>) = [] \<and>
   save (Refused 0) (new_router 3 \<lparr>grid = [], calls = []\<rparr>) =
     (Inr (), new_router 3 \<lparr>grid = [], calls = []\<rparr>) \<and>
   aggregated_cell_buffers
     \<lparr>the_ws = \<lparr>grid = [], calls = []\<rparr>,
      schema_to_table =
        [({''loss'', ''step''},
          \<lparr>cells_buffer = [\<lparr>crow = 3, ccol = 1, cvalue = VStr ''step''\<rparr>,
                            \<lparr>crow = 3, ccol = 2, cvalue = VStr ''loss''\<rparr>],
             col_offset = 1, last_step = 4, metrics_header = [''step'', ''loss'']\<rparr>)],
      header_row = 3\<rparr> \<noteq> [] \<and>
   save Accepted
     \<lparr>the_ws = \<lparr>grid = [], calls = []\<rparr>,
      schema_to_table =
        [({''loss'', ''step''},
          \<lparr>cells_buffer = [\<lparr>crow = 3, ccol = 1, cvalue = VStr ''step''\<rparr>,
                            \<lparr>crow = 3, ccol = 2, cvalue = VStr ''loss''\<rparr>],
             col_offset = 1, last_step = 4, metrics_header = [''step'', ''loss'']\<rparr>)],
      header_row = 3\<rparr> =
   (Inr (),
    \<lparr>the_ws = \<lparr>grid = [((3, 2), VStr ''loss''), ((3, 1), VStr ''step'')],
                calls = [UpdateCells [\<lparr>crow = 3, ccol = 1, cvalue = VStr ''step''\<rparr>,
                                      \<lparr>crow = 3, ccol = 2, cvalue = VStr ''loss''\<rparr>]]\<rparr>,
      schema_to_table =
        [({''loss'', ''step''},
          \<lparr>cells_buffer = [], col_offset = 1, last_step = 4,
             metrics_header = [''step'', ''loss'']\<rparr>)],
      header_row = 3\<rparr>) \<and>
   save Accepted
    \<lparr>the_ws = \<lparr>grid = [((3, 2), VStr ''loss''), ((3, 1), VStr ''step'')],
                calls = [UpdateCells [\<lparr>crow = 3, ccol = 1, cvalue = VStr ''step''\<rparr>,
                                      \<lparr>crow = 3, ccol = 2, cvalue = VStr ''loss''\<rparr>]]\<rparr>,
      schema_to_table =
        [({''loss'', ''step''},
          \<lparr>cells_buffer = [], col_offset = 1, last_step = 4,
             metrics_header = [''step'', ''loss'']\<rparr>)],
      header_row = 3\<rparr> =
   (Inr (),
    \<lparr>the_ws = \<lparr>grid = [((3, 2), VStr ''loss''), ((3, 1), VStr ''step'')],
                calls = [UpdateCells [\<lparr>crow = 3, ccol = 1, cvalue = VStr ''step''\<rparr>,
                                      \<lparr>crow = 3, ccol = 2, cvalue = VStr ''loss''\<rparr>]]\<rparr>,
      schema_to_table =
        [({''loss'', ''step''},
          \<lparr>cells_buffer = [], col_offset = 1, last_step = 4,
             metrics_header = [''step'', ''loss'']\<rparr>)],
      header_row = 3\<rparr>)"
  using save_twice [of "new_router 3 \<lparr>grid = [], calls = []\<rparr>" "Refused 0"]
    save_twice [of "\<lparr>the_ws = \<lparr>grid = [], calls = []\<rparr>,
      schema_to_table =
        [({''loss'', ''step''},
          \<lparr>cells_buffer = [\<lparr>crow = 3, ccol = 1, cvalue = VStr ''step''\<rparr>,
                            \<lparr>crow = 3, ccol = 2, cvalue = VStr ''loss''\<rparr>],
             col_offset = 1, last_step = 4, metrics_header = [''step'', ''loss'']\<rparr>)],
      header_row = 3\<rparr>" Accepted]
  by (simp add: save_def aggregated_cell_buffers_def ws_update_cells_def write_cells_def
        new_router_def)

section \<open>log_metrics\<close>

lemma schema_of_alt: "fst ` set (full_metrics m s) = schema_of m s"
  by (simp add: schema_of_def)

lemma full_step: "map_of (full_metrics m s) ''step'' = Some (step_val s)"
  by (simp add: full_metrics_def AList.update_conv')

lemma full_keys: "fst ` set (full_metrics m s) = insert ''step'' (fst ` set m)"
  by (simp add: full_metrics_def AList.dom_update)

lemma header_names_subset: "set (header_names (step_val s) (full_metrics m s)) \<subseteq> fst ` set (full_metrics m s)"
  by (auto simp: header_names_def full_keys)

lemma Table_init_new:
  "Table_init (the_ws r) (header_row r) (full_metrics m s) =
     (Inr (new_table r m s),
      (the_ws r)\<lparr>calls := calls (the_ws r) @
         [RowValues (header_row r),
          RangeRead (header_row r) (col_offset (new_table r m s)) (header_row r)
            (col_offset (new_table r m s) + length (metrics_header (new_table r m s)) - 1)]\<rparr>)"
  using Table_init_ok[OF full_step[of m s], of "the_ws r" "header_row r"]
  by (simp add: new_table_def Let_def)

lemma new_table_header: "metrics_header (new_table r m s) = header_names (step_val s) (full_metrics m s)"
  by (simp add: new_table_def Let_def)

lemma log_metrics_existing:
  assumes "map_of (schema_to_table r) (schema_of m s) = Some t"
    and "set (metrics_header t) \<subseteq> schema_of m s"
  shows "log_metrics m s r =
     (Inr (),
      r\<lparr>the_ws := (the_ws r)\<lparr>calls := calls (the_ws r) @
            [RangeRead (last_step t) (col_offset t) (last_step t)
               (col_offset t + length (metrics_header t) - 1)]\<rparr>,
        schema_to_table := AList.update (schema_of m s) (add_row (full_metrics m s) t) (schema_to_table r)\<rparr>)"
proof -
  have sub: "set (metrics_header t) \<subseteq> fst ` set (full_metrics m s)"
    using assms(2) by (simp add: schema_of_def)
  have g: "get_table_for_set_of_metrics (full_metrics m s) r = (Inr (schema_of m s, t), r)"
    using assms(1) by (simp add: get_table_for_set_of_metrics_def schema_of_alt Let_def)
  show ?thesis
    unfolding log_metrics_def g
    by (simp add: Table_update_ok[OF sub] add_row_def)
qed

lemma log_metrics_new:
  assumes "map_of (schema_to_table r) (schema_of m s) = None"
  shows "log_metrics m s r =
     (Inr (),
      r\<lparr>the_ws := (the_ws r)\<lparr>calls := calls (the_ws r) @
            [RowValues (header_row r),
             RangeRead (header_row r) (col_offset (new_table r m s)) (header_row r)
               (col_offset (new_table r m s) + length (metrics_header (new_table r m s)) - 1),
             RangeRead (header_row r + 1) (col_offset (new_table r m s)) (header_row r + 1)
               (col_offset (new_table r m s) + length (metrics_header (new_table r m s)) - 1)]\<rparr>,
        schema_to_table := schema_to_table r @ [(schema_of m s, add_row (full_metrics m s) (new_table r m s))]\<rparr>)"
proof -
  let ?t = "new_table r m s"
  have sub: "set (metrics_header ?t) \<subseteq> fst ` set (full_metrics m s)"
    by (simp add: new_table_header header_names_subset)
  have ls: "last_step ?t = header_row r + 1" by (simp add: new_table_def Let_def)
  have g: "get_table_for_set_of_metrics (full_metrics m s) r =
      (Inr (schema_of m s, ?t),
       r\<lparr>the_ws := (the_ws r)\<lparr>calls := calls (the_ws r) @
         [RowValues (header_row r),
          RangeRead (header_row r) (col_offset ?t) (header_row r)
            (col_offset ?t + length (metrics_header ?t) - 1)]\<rparr>,
         schema_to_table := schema_to_table r @ [(schema_of m s, ?t)]\<rparr>)"
    using assms by (simp add: get_table_for_set_of_metrics_def schema_of_alt Table_init_new Let_def)
  have nk: "schema_of m s \<notin> fst ` set (schema_to_table r)"
    using assms by (simp add: map_of_eq_None_iff)
  have upd: "AList.update k v (al @ [(k, v')]) = al @ [(k, v)]" if "k \<notin> fst ` set al" for k v v' and al :: "(string set \<times> table) list"
    using that by (induction al) auto
  show ?thesis
    unfolding log_metrics_def g
    by (simp add: Table_update_ok[OF sub] add_row_def ls upd[OF nk])
qed

lemma Table_update_frame:
  "col_offset (fst (snd (Table_update row t w))) = col_offset t \<and>
   metrics_header (fst (snd (Table_update row t w))) = metrics_header t \<and>
   last_step t \<le> last_step (fst (snd (Table_update row t w)))"
  by (simp add: Table_update_def split_def Let_def split: sum.splits)

lemma log_metrics_found:
  assumes "map_of (schema_to_table r) (schema_of m s) = Some t"
  shows "snd (log_metrics m s r) =
      r\<lparr>the_ws := snd (snd (Table_update (full_metrics m s) t (the_ws r))),
        schema_to_table :=
          AList.update (schema_of m s) (fst (snd (Table_update (full_metrics m s) t (the_ws r))))
            (schema_to_table r)\<rparr>"
proof -
  have g: "get_table_for_set_of_metrics (full_metrics m s) r = (Inr (schema_of m s, t), r)"
    using assms by (simp add: get_table_for_set_of_metrics_def schema_of_alt Let_def)
  show ?thesis
    unfolding log_metrics_def g by (simp add: split_def Let_def)
qed

lemma map_of_clear:
  "map_of (map (\<lambda>e. (fst e, f (snd e))) al) k = map_option f (map_of al k)"
  by (induction al) auto

lemma map_of_snoc:
  "map_of al k = None \<Longrightarrow> map_of (al @ [(k, v)]) = (map_of al)(k \<mapsto> v)"
  by (rule ext) (auto simp: map_add_def split: option.splits)

lemma log_metrics_frame:
  "header_row (snd (log_metrics m s r)) = header_row r \<and>
   (\<exists>ext. map fst (schema_to_table (snd (log_metrics m s r))) = map fst (schema_to_table r) @ ext) \<and>
   (\<exists>t'. map_of (schema_to_table (snd (log_metrics m s r))) (schema_of m s) = Some t') \<and>
   (\<forall>fs t. map_of (schema_to_table r) fs = Some t \<longrightarrow>
      (\<exists>t'. map_of (schema_to_table (snd (log_metrics m s r))) fs = Some t' \<and> same_block t t'))"
proof (cases "map_of (schema_to_table r) (schema_of m s)")
  case None
  let ?t = "add_row (full_metrics m s) (new_table r m s)"
  let ?r' = "snd (log_metrics m s r)"
  have sch: "schema_to_table ?r' = schema_to_table r @ [(schema_of m s, ?t)]"
    and hr: "header_row ?r' = header_row r"
    by (simp_all add: log_metrics_new[OF None])
  have mo: "map_of (schema_to_table ?r') = (map_of (schema_to_table r))(schema_of m s \<mapsto> ?t)"
    unfolding sch by (rule map_of_snoc[OF None])
  have "map fst (schema_to_table ?r') = map fst (schema_to_table r) @ [schema_of m s]"
    by (simp add: sch)
  with hr None show ?thesis
    by (auto simp: mo same_block_def)
next
  case (Some t)
  have "schema_of m s \<in> set (map fst (schema_to_table r))"
    using Some by (metis image_set map_of_eq_None_iff option.distinct(1))
  then show ?thesis
    unfolding log_metrics_found[OF Some]
    using Some Table_update_frame[of "full_metrics m s" t "the_ws r"]
    by (auto simp: AList.update_conv' AList.update_keys same_block_def)
qed

lemma save_frame:
  "header_row (snd (save rp r)) = header_row r \<and>
   map fst (schema_to_table (snd (save rp r))) = map fst (schema_to_table r) \<and>
   (\<forall>fs t. map_of (schema_to_table r) fs = Some t \<longrightarrow>
      (\<exists>t'. map_of (schema_to_table (snd (save rp r))) fs = Some t' \<and> same_block t t'))"
  by (cases rp)
     (auto simp: save_def ws_update_cells_def map_of_clear same_block_def comp_def)

lemma step_op_frame:
  "header_row (snd (step_op x r)) = header_row r \<and>
   (\<exists>ext. map fst (schema_to_table (snd (step_op x r))) = map fst (schema_to_table r) @ ext) \<and>
   (\<forall>fs t. map_of (schema_to_table r) fs = Some t \<longrightarrow>
      (\<exists>t'. map_of (schema_to_table (snd (step_op x r))) fs = Some t' \<and> same_block t t'))"
proof (cases x)
  case (LogMetrics m s)
  then show ?thesis using log_metrics_frame[of m s r] by simp
next
  case (Save rp)
  then show ?thesis using save_frame[of rp r] by simp
qed

lemma run_frame:
  "header_row (run ops r) = header_row r \<and>
   (\<exists>ext. map fst (schema_to_table (run ops r)) = map fst (schema_to_table r) @ ext) \<and>
   (\<forall>fs t. map_of (schema_to_table r) fs = Some t \<longrightarrow>
      (\<exists>t'. map_of (schema_to_table (run ops r)) fs = Some t' \<and> same_block t t'))"
proof (induction ops arbitrary: r)
  case Nil
  show ?case by (simp add: same_block_def)
next
  case (Cons x xs)
  let ?r1 = "snd (step_op x r)"
  note s = step_op_frame[of x r] and i = Cons.IH[of ?r1]
  have 1: "header_row (run (x # xs) r) = header_row r" using s i by simp
  have 2: "\<exists>ext. map fst (schema_to_table (run (x # xs) r)) = map fst (schema_to_table r) @ ext"
  proof -
    from s obtain e1 where "map fst (schema_to_table ?r1) = map fst (schema_to_table r) @ e1" by blast
    moreover from i obtain e2 where "map fst (schema_to_table (run xs ?r1)) = map fst (schema_to_table ?r1) @ e2" by blast
    ultimately show ?thesis by simp
  qed
  have 3: "\<exists>t'. map_of (schema_to_table (run (x # xs) r)) fs = Some t' \<and> same_block t t'"
    if "map_of (schema_to_table r) fs = Some t" for fs t
  proof -
    from s that obtain t1 where t1: "map_of (schema_to_table ?r1) fs = Some t1" "same_block t t1" by blast
    from i t1(1) obtain t2 where "map_of (schema_to_table (run xs ?r1)) fs = Some t2" "same_block t1 t2" by blast
    with t1(2) show ?thesis by (auto simp: same_block_def)
  qed
  from 1 2 3 show ?case by blast
qed

lemma get_table_found:
  "map_of (schema_to_table r) (schema_of m s) = Some t \<Longrightarrow>
   get_table_for_set_of_metrics (full_metrics m s) r = (Inr (schema_of m s, t), r)"
  by (simp add: get_table_for_set_of_metrics_def schema_of_alt Let_def)

lemma get_table_new:
  "map_of (schema_to_table r) (schema_of m s) = None \<Longrightarrow>
   \<exists>t w. Table_init (the_ws r) (header_row r) (full_metrics m s) = (Inr t, w) \<and>
     get_table_for_set_of_metrics (full_metrics m s) r =
       (Inr (schema_of m s, t),
        r\<lparr>the_ws := w, schema_to_table := schema_to_table r @ [(schema_of m s, t)]\<rparr>)"
  by (simp add: get_table_for_set_of_metrics_def schema_of_alt Let_def Table_init_new)

lemma new_table_has_step:
  "(''step'' \<in> set (header_names (step_val s) (full_metrics m s))) = (s \<noteq> None)"
  by (cases s) (auto simp: header_names_def step_val_def)

lemma schema_of_step: "schema_of m s = insert ''step'' (fst ` set m)"
  by (simp add: schema_of_def full_keys)

lemma run_append: "run (xs @ ys) r = run ys (run xs r)"
  by (induction xs arbitrary: r) simp_all

lemma calls_with_snoc_log:
  "calls_with fs (ops @ [LogMetrics m s]) = calls_with fs ops + (if schema_of m s = fs then 1 else 0)"
  by (simp add: calls_with_def)

lemma calls_with_snoc_save: "calls_with fs (ops @ [Save rp]) = calls_with fs ops"
  by (simp add: calls_with_def)

lemma counted_log:
  assumes "counted hr ops r"
  shows "counted hr (ops @ [LogMetrics m s]) (snd (log_metrics m s r))"
proof (cases "map_of (schema_to_table r) (schema_of m s)")
  case None
  let ?t = "add_row (full_metrics m s) (new_table r m s)"
  let ?r' = "snd (log_metrics m s r)"
  have sch: "schema_to_table ?r' = schema_to_table r @ [(schema_of m s, ?t)]"
    and hr: "header_row ?r' = header_row r"
    by (simp_all add: log_metrics_new[OF None])
  have mo: "map_of (schema_to_table ?r') = (map_of (schema_to_table r))(schema_of m s \<mapsto> ?t)"
    unfolding sch by (rule map_of_snoc[OF None])
  have t1: "set (metrics_header ?t) \<subseteq> schema_of m s"
    using header_names_subset[of s m] by (simp add: add_row_def new_table_header schema_of_alt)
  have t2: "last_step ?t = header_row r + 2"
    by (simp add: add_row_def new_table_def Let_def)
  note t = t1 t2
  from assms have "case map_of (schema_to_table r) (schema_of m s) of
              None \<Rightarrow> calls_with (schema_of m s) ops = 0
            | Some t \<Rightarrow> set (metrics_header t) \<subseteq> schema_of m s \<and> 0 < calls_with (schema_of m s) ops \<and>
                        last_step t = hr + 1 + calls_with (schema_of m s) ops"
    by (simp add: counted_def)
  with None have c0: "calls_with (schema_of m s) ops = 0" by simp
  show ?thesis
    unfolding counted_def
  proof (intro conjI allI)
    show "header_row ?r' = hr" using hr assms by (simp add: counted_def)
    fix fs
    show "case map_of (schema_to_table ?r') fs of
            None \<Rightarrow> calls_with fs (ops @ [LogMetrics m s]) = 0
          | Some t \<Rightarrow> set (metrics_header t) \<subseteq> fs \<and> 0 < calls_with fs (ops @ [LogMetrics m s]) \<and>
                      last_step t = hr + 1 + calls_with fs (ops @ [LogMetrics m s])"
    proof (cases "fs = schema_of m s")
      case True
      then show ?thesis using t c0 assms by (simp add: mo calls_with_snoc_log counted_def)
    next
      case False
      with assms have "case map_of (schema_to_table r) fs of
              None \<Rightarrow> calls_with fs ops = 0
            | Some t \<Rightarrow> set (metrics_header t) \<subseteq> fs \<and> 0 < calls_with fs ops \<and>
                        last_step t = hr + 1 + calls_with fs ops"
        by (simp add: counted_def)
      with False show ?thesis by (simp add: mo calls_with_snoc_log split: option.splits)
    qed
  qed
next
  case (Some t)
  let ?t = "add_row (full_metrics m s) t"
  let ?r' = "snd (log_metrics m s r)"
  from assms have "case map_of (schema_to_table r) (schema_of m s) of
              None \<Rightarrow> calls_with (schema_of m s) ops = 0
            | Some t \<Rightarrow> set (metrics_header t) \<subseteq> schema_of m s \<and> 0 < calls_with (schema_of m s) ops \<and>
                        last_step t = hr + 1 + calls_with (schema_of m s) ops"
    by (simp add: counted_def)
  with Some have tt: "set (metrics_header t) \<subseteq> schema_of m s"
      "0 < calls_with (schema_of m s) ops" "last_step t = hr + 1 + calls_with (schema_of m s) ops"
    by simp_all
  have sch: "schema_to_table ?r' = AList.update (schema_of m s) ?t (schema_to_table r)"
    and hr: "header_row ?r' = header_row r"
    by (simp_all add: log_metrics_existing[OF Some tt(1)])
  have mo: "map_of (schema_to_table ?r') = (map_of (schema_to_table r))(schema_of m s \<mapsto> ?t)"
    unfolding sch by (rule AList.update_conv')
  show ?thesis
    unfolding counted_def
  proof (intro conjI allI)
    show "header_row ?r' = hr" using hr assms by (simp add: counted_def)
    fix fs
    show "case map_of (schema_to_table ?r') fs of
            None \<Rightarrow> calls_with fs (ops @ [LogMetrics m s]) = 0
          | Some t \<Rightarrow> set (metrics_header t) \<subseteq> fs \<and> 0 < calls_with fs (ops @ [LogMetrics m s]) \<and>
                      last_step t = hr + 1 + calls_with fs (ops @ [LogMetrics m s])"
    proof (cases "fs = schema_of m s")
      case True
      then show ?thesis using tt by (simp add: mo calls_with_snoc_log add_row_def)
    next
      case False
      with assms have "case map_of (schema_to_table r) fs of
              None \<Rightarrow> calls_with fs ops = 0
            | Some t \<Rightarrow> set (metrics_header t) \<subseteq> fs \<and> 0 < calls_with fs ops \<and>
                        last_step t = hr + 1 + calls_with fs ops"
        by (simp add: counted_def)
      with False show ?thesis by (simp add: mo calls_with_snoc_log split: option.splits)
    qed
  qed
qed

lemma counted_save:
  assumes "counted hr ops r"
  shows "counted hr (ops @ [Save rp]) (snd (save rp r))"
proof -
  let ?r' = "snd (save rp r)"
  have sch: "schema_to_table ?r' = schema_to_table r \<or>
        schema_to_table ?r' =
          map (\<lambda>e. (fst e, (snd e)\<lparr>cells_buffer := []\<rparr>)) (schema_to_table r)"
    by (cases rp) (simp_all add: save_def ws_update_cells_def)
  have hr: "header_row ?r' = hr"
    using save_frame[of rp r] assms by (simp add: counted_def)
  have each: "case map_of (schema_to_table ?r') fs of
            None \<Rightarrow> calls_with fs (ops @ [Save rp]) = 0
          | Some t \<Rightarrow> set (metrics_header t) \<subseteq> fs \<and> 0 < calls_with fs (ops @ [Save rp]) \<and>
                      last_step t = hr + 1 + calls_with fs (ops @ [Save rp])" for fs
  proof -
    from assms have old: "case map_of (schema_to_table r) fs of
              None \<Rightarrow> calls_with fs ops = 0
            | Some t \<Rightarrow> set (metrics_header t) \<subseteq> fs \<and> 0 < calls_with fs ops \<and>
                        last_step t = hr + 1 + calls_with fs ops"
      by (simp add: counted_def)
    from sch show ?thesis
    proof
      assume "schema_to_table ?r' = schema_to_table r"
      with old show ?thesis by (simp add: calls_with_snoc_save split: option.splits)
    next
      assume e: "schema_to_table ?r' =
          map (\<lambda>e. (fst e, (snd e)\<lparr>cells_buffer := []\<rparr>)) (schema_to_table r)"
      show ?thesis
      proof (cases "map_of (schema_to_table r) fs")
        case None
        with old show ?thesis by (simp add: e map_of_clear calls_with_snoc_save split: option.splits)
      next
        case (Some t)
        with old show ?thesis by (simp add: e map_of_clear calls_with_snoc_save split: option.splits)
      qed
    qed
  qed
  show ?thesis unfolding counted_def by (intro conjI allI) (rule hr, rule each)
qed

lemma counted_run: "counted hr ops (run ops (new_router hr w))"
proof (induction ops rule: rev_induct)
  case Nil
  show ?case by (simp add: counted_def new_router_def calls_with_def)
next
  case (snoc x xs)
  show ?case
  proof (cases x)
    case (LogMetrics m s)
    with counted_log[OF snoc.IH, of m s] show ?thesis by (simp add: run_append)
  next
    case (Save rp)
    with counted_save[OF snoc.IH, of rp] show ?thesis by (simp add: run_append)
  qed
qed

lemma later_call_found:
  assumes eq: "schema_of m' s' = schema_of m s"
  shows "\<exists>t1 t2. map_of (schema_to_table (snd (log_metrics m s r))) (schema_of m s) = Some t1 \<and>
          get_table_for_set_of_metrics (full_metrics m' s') (run ops (snd (log_metrics m s r))) =
            (Inr (schema_of m s, t2), run ops (snd (log_metrics m s r))) \<and>
          same_block t1 t2"
proof -
  let ?r1 = "snd (log_metrics m s r)"
  from log_metrics_frame[of m s r] obtain t1
    where t1: "map_of (schema_to_table ?r1) (schema_of m s) = Some t1" by blast
  with run_frame[of ops ?r1] obtain t2
    where t2: "map_of (schema_to_table (run ops ?r1)) (schema_of m s) = Some t2" "same_block t1 t2"
    by blast
  from t2(1) have "map_of (schema_to_table (run ops ?r1)) (schema_of m' s') = Some t2"
    by (simp add: eq)
  from get_table_found[OF this] t1 t2(2) eq show ?thesis by auto
qed

text \<open>
  Claim C3. After any calls on a new router, let \<open>k\<close> be the number of earlier
  \<^verbatim>\<open>log_metrics\<close> calls with the schema of the present call. The call returns, stages
  its row at row \<open>header_row + k + 1\<close> behind what the Table had pending (the header,
  for the first call) and leaves the counter at the next row. The step values of the
  calls are arbitrary: they do not enter the row number.
\<close>

theorem rows_consecutive:
  "let r = run ops (new_router hr w); k = calls_with (schema_of m s) ops
   in fst (log_metrics m s r) = Inr () \<and>
      (\<exists>t'. map_of (schema_to_table (snd (log_metrics m s r))) (schema_of m s) = Some t' \<and>
            last_step t' = hr + k + 2 \<and>
            cells_buffer t' =
              (case map_of (schema_to_table r) (schema_of m s) of
                 None \<Rightarrow> cells_buffer (new_table r m s)
               | Some t \<Rightarrow> cells_buffer t)
              @ row_cells (full_metrics m s) (hr + k + 1) (col_offset t') (metrics_header t'))"
proof -
  define r where "r = run ops (new_router hr w)"
  define k where "k = calls_with (schema_of m s) ops"
  have c: "counted hr ops r" unfolding r_def by (rule counted_run)
  then have hr: "header_row r = hr" by (simp add: counted_def)
  from c have old: "case map_of (schema_to_table r) (schema_of m s) of
              None \<Rightarrow> k = 0
            | Some t \<Rightarrow> set (metrics_header t) \<subseteq> schema_of m s \<and> 0 < k \<and>
                        last_step t = hr + 1 + k"
    unfolding counted_def k_def by blast
  have "fst (log_metrics m s r) = Inr () \<and>
      (\<exists>t'. map_of (schema_to_table (snd (log_metrics m s r))) (schema_of m s) = Some t' \<and>
            last_step t' = hr + k + 2 \<and>
            cells_buffer t' =
              (case map_of (schema_to_table r) (schema_of m s) of
                 None \<Rightarrow> cells_buffer (new_table r m s)
               | Some t \<Rightarrow> cells_buffer t)
              @ row_cells (full_metrics m s) (hr + k + 1) (col_offset t') (metrics_header t'))"
  proof (cases "map_of (schema_to_table r) (schema_of m s)")
    case None
    let ?t = "add_row (full_metrics m s) (new_table r m s)"
    from old None have k0: "k = 0" by simp
    have sch: "schema_to_table (snd (log_metrics m s r)) = schema_to_table r @ [(schema_of m s, ?t)]"
      and res: "fst (log_metrics m s r) = Inr ()"
      by (simp_all add: log_metrics_new[OF None])
    have mo: "map_of (schema_to_table (snd (log_metrics m s r))) (schema_of m s) = Some ?t"
      unfolding sch map_of_snoc[OF None] by simp
    have "last_step ?t = hr + k + 2"
      by (simp add: add_row_def new_table_def Let_def hr k0)
    moreover have "cells_buffer ?t = cells_buffer (new_table r m s)
        @ row_cells (full_metrics m s) (hr + k + 1) (col_offset ?t) (metrics_header ?t)"
      by (simp add: add_row_def new_table_def Let_def hr k0)
    ultimately show ?thesis using res mo None by simp
  next
    case (Some t)
    let ?t = "add_row (full_metrics m s) t"
    from old Some have tt: "set (metrics_header t) \<subseteq> schema_of m s" "last_step t = hr + 1 + k"
      by simp_all
    have sch: "schema_to_table (snd (log_metrics m s r)) =
          AList.update (schema_of m s) ?t (schema_to_table r)"
      and res: "fst (log_metrics m s r) = Inr ()"
      by (simp_all add: log_metrics_existing[OF Some tt(1)])
    have mo: "map_of (schema_to_table (snd (log_metrics m s r))) (schema_of m s) = Some ?t"
      unfolding sch by (simp add: AList.update_conv')
    have "last_step ?t = hr + k + 2" by (simp add: add_row_def tt)
    moreover have "cells_buffer ?t = cells_buffer t
        @ row_cells (full_metrics m s) (hr + k + 1) (col_offset ?t) (metrics_header ?t)"
      by (simp add: add_row_def tt)
    ultimately show ?thesis using res mo Some by simp
  qed
  then show ?thesis by (simp only: Let_def r_def k_def)
qed

text \<open>
  Claim C10. The routed mapping always has the key \<^verbatim>\<open>step\<close>, bound to the step
  argument, also when the metrics had a key of that name. The schema does not depend on
  the step, so a call without a step has the schema of the same call with one. The
  header of a Table is the one its creating call gave it, over any further calls: it has
  a \<^verbatim>\<open>step\<close> column exactly when the creating call had a step.
\<close>

theorem step_key_always_present:
  "''step'' \<in> schema_of m s \<and>
   map_of (full_metrics m s) ''step'' = Some (step_val s) \<and>
   schema_of m None = schema_of m (Some n) \<and>
   (\<exists>t1 t2. map_of (schema_to_table (snd (log_metrics m (Some n) r))) (schema_of m (Some n)) = Some t1 \<and>
      get_table_for_set_of_metrics (full_metrics m None) (run ops (snd (log_metrics m (Some n) r))) =
        (Inr (schema_of m (Some n), t2), run ops (snd (log_metrics m (Some n) r))) \<and>
      same_block t1 t2) \<and>
   (map_of (schema_to_table r) (schema_of m s) = None \<longrightarrow>
      (\<exists>t. map_of (schema_to_table (run ops (snd (log_metrics m s r)))) (schema_of m s) = Some t \<and>
           metrics_header t = header_names (step_val s) (full_metrics m s) \<and>
           ((''step'' \<in> set (metrics_header t)) = (s \<noteq> None))))"
proof -
  let ?r1 = "snd (log_metrics m s r)"
  have "\<exists>t. map_of (schema_to_table (run ops ?r1)) (schema_of m s) = Some t \<and>
           metrics_header t = header_names (step_val s) (full_metrics m s) \<and>
           ((''step'' \<in> set (metrics_header t)) = (s \<noteq> None))"
    if None: "map_of (schema_to_table r) (schema_of m s) = None"
  proof -
    let ?t = "add_row (full_metrics m s) (new_table r m s)"
    have sch: "schema_to_table ?r1 = schema_to_table r @ [(schema_of m s, ?t)]"
      by (simp add: log_metrics_new[OF None])
    have "map_of (schema_to_table ?r1) (schema_of m s) = Some ?t"
      unfolding sch map_of_snoc[OF None] by simp
    with run_frame[of ops ?r1] obtain t
      where t: "map_of (schema_to_table (run ops ?r1)) (schema_of m s) = Some t" "same_block ?t t"
      by blast
    from t(2) have "metrics_header t = header_names (step_val s) (full_metrics m s)"
      by (simp add: same_block_def add_row_def new_table_header)
    with t(1) show ?thesis by (simp add: new_table_has_step)
  qed
  moreover have "schema_of m None = schema_of m (Some n)"
    by (simp add: schema_of_step)
  ultimately show ?thesis
    using later_call_found[of m None m "Some n" r ops]
    by (simp add: schema_of_step full_step)
qed

theorem step_key_always_present_witness:
  "map_of (schema_to_table (new_router 3 \<lparr>grid = [], calls = []\<rparr>)) (schema_of [(''step'', VNum 9), (''loss'', VNum 20)] None) = None \<and>
   map_of (full_metrics [(''step'', VNum 9), (''loss'', VNum 20)] None) ''step'' = Some (step_val None) \<and>
   (\<exists>t. map_of (schema_to_table (run [LogMetrics [(''step'', VNum 9), (''loss'', VNum 20)] (Some 4), Save Accepted] (snd (log_metrics [(''step'', VNum 9), (''loss'', VNum 20)] None (new_router 3 \<lparr>grid = [], calls = []\<rparr>)))))
           (schema_of [(''step'', VNum 9), (''loss'', VNum 20)] None) = Some t \<and>
        metrics_header t = header_names (step_val None) (full_metrics [(''step'', VNum 9), (''loss'', VNum 20)] None) \<and>
        ((''step'' \<in> set (metrics_header t)) = ((None :: int option) \<noteq> None)))"
proof -
  have a: "map_of (schema_to_table (new_router 3 \<lparr>grid = [], calls = []\<rparr>)) (schema_of [(''step'', VNum 9), (''loss'', VNum 20)] None) = None"
    by code_simp
  from a step_key_always_present [of "[(''step'', VNum 9), (''loss'', VNum 20)]" None 7 "new_router 3 \<lparr>grid = [], calls = []\<rparr>" "[LogMetrics [(''step'', VNum 9), (''loss'', VNum 20)] (Some 4), Save Accepted]"]
  show ?thesis by blast
qed

section \<open>Routing and column blocks\<close>

text \<open>
  Routing goes by the schema alone. A call whose schema already has a Table gets that
  Table and changes nothing in the router; a call whose schema has none constructs a
  Table with \<^verbatim>\<open>Table.__init__\<close> and appends it, leaving the others as they are. Over
  any further calls the schemas known so far keep their places in the mapping and their
  Tables keep their offset and header: none is removed or replaced. So a later call with
  the same schema as an earlier one is routed to the earlier call's Table.
\<close>

lemma routing_by_key_set:
  "(\<forall>t. map_of (schema_to_table r) (schema_of m s) = Some t \<longrightarrow>
       get_table_for_set_of_metrics (full_metrics m s) r = (Inr (schema_of m s, t), r)) \<and>
   (map_of (schema_to_table r) (schema_of m s) = None \<longrightarrow>
       (\<exists>t w. Table_init (the_ws r) (header_row r) (full_metrics m s) = (Inr t, w) \<and>
          get_table_for_set_of_metrics (full_metrics m s) r =
            (Inr (schema_of m s, t),
             r\<lparr>the_ws := w, schema_to_table := schema_to_table r @ [(schema_of m s, t)]\<rparr>))) \<and>
   (\<exists>ext. map fst (schema_to_table (run ops r)) = map fst (schema_to_table r) @ ext) \<and>
   (\<forall>fs t. map_of (schema_to_table r) fs = Some t \<longrightarrow>
       (\<exists>t'. map_of (schema_to_table (run ops r)) fs = Some t' \<and> same_block t t')) \<and>
   (schema_of m' s' = schema_of m s \<longrightarrow>
       (\<exists>t1 t2. map_of (schema_to_table (snd (log_metrics m s r))) (schema_of m s) = Some t1 \<and>
          get_table_for_set_of_metrics (full_metrics m' s') (run ops (snd (log_metrics m s r))) =
            (Inr (schema_of m s, t2), run ops (snd (log_metrics m s r))) \<and>
          same_block t1 t2))"
  using get_table_found[of r m s] get_table_new[of r m s] run_frame[of ops r]
    later_call_found[of m' s' m s r ops]
  by blast

text \<open>
  Claim C1 does not hold of the code. \<^verbatim>\<open>Table.__init__\<close> places a new block behind
  the headers it reads from the sheet (\<^verbatim>\<open>len(header) + 2\<close>), but the header of the
  Table before it is only staged, not yet written. Two schemas logged with no
  \<^verbatim>\<open>save\<close> between them therefore both get the block that starts at column 1, and
  the \<^verbatim>\<open>save\<close> that follows writes the second Table's cells over the first's: rows
  3 and 4 of the sheet then hold the header \<^verbatim>\<open>step, val_loss\<close> and the values 1 and 6,
  and the header \<^verbatim>\<open>loss\<close> and the value 20 are gone.
\<close>

theorem blocks_overlap:
  "map (\<lambda>e. (col_offset (snd e), metrics_header (snd e)))
     (schema_to_table (run
        [LogMetrics [(''loss'', VNum 20)] (Some 1), LogMetrics [(''val_loss'', VNum 6)] (Some 1)]
        (new_router 3 \<lparr>grid = [], calls = []\<rparr>)))
     = [(1, [''step'', ''loss'']), (1, [''step'', ''val_loss''])] \<and>
   map (cell_at (grid (the_ws (run
        [LogMetrics [(''loss'', VNum 20)] (Some 1), LogMetrics [(''val_loss'', VNum 6)] (Some 1),
         Save Accepted]
        (new_router 3 \<lparr>grid = [], calls = []\<rparr>)))) 3) [1, 2]
     = [VStr ''step'', VStr ''val_loss''] \<and>
   map (cell_at (grid (the_ws (run
        [LogMetrics [(''loss'', VNum 20)] (Some 1), LogMetrics [(''val_loss'', VNum 6)] (Some 1),
         Save Accepted]
        (new_router 3 \<lparr>grid = [], calls = []\<rparr>)))) 4) [1, 2]
     = [VNum 1, VNum 6]"
  by code_simp

text \<open>
  Claim C7 does not hold of the code in its promise of new columns, by the same defect.
  After one call with the schema \<^verbatim>\<open>loss, step\<close> and no \<^verbatim>\<open>save\<close>, a call with the
  unseen schema \<^verbatim>\<open>val_loss, step\<close> constructs a new Table, as the claim says, but
  on the two columns from column 1 that the first Table has.
\<close>

theorem new_table_on_old_columns:
  "map_of (schema_to_table (snd (log_metrics [(''loss'', VNum 20)] (Some 1) (new_router 3 \<lparr>grid = [], calls = []\<rparr>))))
     (schema_of [(''val_loss'', VNum 6)] (Some 1)) = None \<and>
   map (\<lambda>e. (fst e, col_offset (snd e), length (metrics_header (snd e))))
     (schema_to_table (snd (log_metrics [(''val_loss'', VNum 6)] (Some 1)
        (snd (log_metrics [(''loss'', VNum 20)] (Some 1) (new_router 3 \<lparr>grid = [], calls = []\<rparr>))))))
     = [({''loss'', ''step''}, 1, 2), ({''val_loss'', ''step''}, 1, 2)]"
  by code_simp

section \<open>The version of a run\<close>

lemma init_version_keeps_argument:
  "GDriveLogger_init_version root_folder_id version drive = Inr (v, folder) \<Longrightarrow> v = version"
  by (auto simp: GDriveLogger_init_version_def Let_def split: sum.splits option.splits)

text \<open>
  Claim C4 does not hold of the code. With the folders \<^verbatim>\<open>version_0\<close> and
  \<^verbatim>\<open>version_1\<close> under the root folder the claim gives version 2. The constructor
  called without a version reads \<^verbatim>\<open>root_folder_id\<close> before line 115 assigns it and
  raises \<^verbatim>\<open>AttributeError\<close>. \<^verbatim>\<open>_get_next_version\<close> itself, given the root folder,
  returns 2; but were the attribute set, line 114 would still put the argument
  \<^verbatim>\<open>None\<close> back into \<^verbatim>\<open>_version\<close>, so the property would return \<^verbatim>\<open>None\<close>
  while the folder is named \<^verbatim>\<open>version_2\<close>.
\<close>

theorem version_none_not_resolved:
  "GDriveLogger_init_version None None
      [\<lparr>file_id = ''r'', title = ''lightning_logs'',
         mimeType = ''application/vnd.google-apps.folder'', parents = [], trashed = False\<rparr>,
       \<lparr>file_id = ''a'', title = ''version_0'',
         mimeType = ''application/vnd.google-apps.folder'', parents = [''r''], trashed = False\<rparr>,
       \<lparr>file_id = ''b'', title = ''version_1'',
         mimeType = ''application/vnd.google-apps.folder'', parents = [''r''], trashed = False\<rparr>] = Inl (AttributeError ''root_folder_id'') \<and>
   get_next_version (Some ''r'')
      [\<lparr>file_id = ''r'', title = ''lightning_logs'',
         mimeType = ''application/vnd.google-apps.folder'', parents = [], trashed = False\<rparr>,
       \<lparr>file_id = ''a'', title = ''version_0'',
         mimeType = ''application/vnd.google-apps.folder'', parents = [''r''], trashed = False\<rparr>,
       \<lparr>file_id = ''b'', title = ''version_1'',
         mimeType = ''application/vnd.google-apps.folder'', parents = [''r''], trashed = False\<rparr>] = Inr 2 \<and>
   GDriveLogger_init_version (Some ''r'') None
      [\<lparr>file_id = ''r'', title = ''lightning_logs'',
         mimeType = ''application/vnd.google-apps.folder'', parents = [], trashed = False\<rparr>,
       \<lparr>file_id = ''a'', title = ''version_0'',
         mimeType = ''application/vnd.google-apps.folder'', parents = [''r''], trashed = False\<rparr>,
       \<lparr>file_id = ''b'', title = ''version_1'',
         mimeType = ''application/vnd.google-apps.folder'', parents = [''r''], trashed = False\<rparr>] = Inr (None, ''version_2'')"
  by code_simp

end
